theory Spec2Isabelle
  imports Main "HOL-Library.AList" "HOL-Library.Sublist" "HOL-Library.Char_ord"
    "HOL-Library.List_Lexorder"
begin

section \<open>Strings\<close>

text \<open>
  Keys are Python \<open>str\<close> values. They are modelled as \<open>string\<close>, each \<open>char\<close> standing
  for one code point below 256. \<open>split_on\<close> is \<open>str.split\<close> with a one-character
  separator, \<open>lower\<close> is \<open>str.lower\<close> on that range (A-Z and the Latin-1 capitals
  except the multiplication sign move up by 32), \<open>str_int\<close> is \<open>str\<close> on an \<open>int\<close>.
  Strings are compared by code point, lexicographically.
\<close>

definition SEPARATOR :: string where
  "SEPARATOR = '':''"

fun split_on :: "char \<Rightarrow> string \<Rightarrow> string list" where
  "split_on sep [] = [[]]"
| "split_on sep (c # cs) =
     (if c = sep then [] # split_on sep cs
      else (case split_on sep cs of [] \<Rightarrow> [[c]] | p # ps \<Rightarrow> (c # p) # ps))"

definition split :: "string \<Rightarrow> string list" where
  "split key = split_on (CHR '':'') key"

definition lower_char :: "char \<Rightarrow> char" where
  "lower_char c =
     (let n = (of_char c :: nat)
      in if (65 \<le> n \<and> n \<le> 90) \<or> (192 \<le> n \<and> n \<le> 222 \<and> n \<noteq> 215)
         then char_of (n + 32) else c)"

definition lower :: "string \<Rightarrow> string" where
  "lower s = map lower_char s"

function str_nat :: "nat \<Rightarrow> string" where
  "str_nat n = (if n < 10 then [''0123456789'' ! n] else str_nat (n div 10) @ [''0123456789'' ! (n mod 10)])"
  by pat_completeness auto
termination
  by (relation "measure id") auto

definition str_int :: "int \<Rightarrow> string" where
  "str_int i = (if i < 0 then CHR ''-'' # str_nat (nat (- i)) else str_nat (nat i))"

section \<open>The prefix tree (\<open>_PrefixTree\<close> in \<open>ui/keys_browser.py\<close>)\<close>

text \<open>
  \<open>children\<close> is \<open>None\<close> or a dict; a dict keeps its keys in insertion order, so it is
  an association list here, a new key going to the end. \<open>insert\<close> is called
  \<open>insert_trie\<close>. \<open>recount\<close> returns the tree with its refreshed \<open>count\<close> fields
  and the value the method returns.
\<close>

datatype trie = PrefixTree (children: "(string \<times> trie) list option") (is_key: bool) (count: int)

definition new_tree :: trie where
  "new_tree = PrefixTree None False 0"

fun insert_trie :: "trie \<Rightarrow> string list \<Rightarrow> trie" where
  "insert_trie (PrefixTree ch k n) [] = PrefixTree ch True n"
| "insert_trie (PrefixTree ch k n) (part # parts) =
     (let cs = (case ch of None \<Rightarrow> [] | Some cs \<Rightarrow> cs)
      in case map_of cs part of
           None \<Rightarrow> PrefixTree (Some (cs @ [(part, insert_trie new_tree parts)])) k n
         | Some child \<Rightarrow> PrefixTree (Some (AList.update part (insert_trie child parts) cs)) k n)"

fun recount :: "trie \<Rightarrow> bool \<Rightarrow> trie \<times> int" where
  "recount (PrefixTree None k n) include_children =
     (let c = (if k then 1 else 0) in (PrefixTree None k c, c))"
| "recount (PrefixTree (Some cs) k n) include_children =
     (if include_children then
        let (cs', total) =
              fold (\<lambda>(segment, child) (acc, total).
                      let (child', c) = recount child True
                      in (acc @ [(segment, child')], total + c))
                   cs ([], if k then 1 else 0)
        in (PrefixTree (Some cs') k total, total)
      else
        let total = (if k then 1 else 0)
        in (PrefixTree (Some cs) k total, total))"

text \<open>
  The tree a session holds after the keys of its pages: every key, split on the
  separator, inserted in turn into a fresh tree. \<open>_load_keys\<close> and \<open>load_all_thread\<close>
  skip a key that is already in the key set; inserting it again would change nothing
  (C2).
\<close>

definition build :: "string list \<Rightarrow> trie" where
  "build keys = fold (\<lambda>key t. insert_trie t (split key)) keys new_tree"

section \<open>Facts about \<open>recount\<close>\<close>

text \<open>
  The loop of \<open>recount\<close> over the children, in closed form, an induction rule for
  trees, and the fact that \<open>recount\<close> changes no size: \<open>to_nodes\<close> calls itself on
  a child that \<open>recount\<close> has just been through.
\<close>

lemma recount_fold:
  "fold (\<lambda>(segment, child) (acc, total).
            case recount child True of (child', c) \<Rightarrow>
              (acc @ [(segment, child')], total + c)) cs (acc0, t0)
   = (acc0 @ map (\<lambda>(s, c). (s, fst (recount c True))) cs,
      t0 + sum_list (map (\<lambda>(s, c). snd (recount c True)) cs))"
  by (induction cs arbitrary: acc0 t0) (auto simp: case_prod_beta Let_def)

lemma recount_Some:
  "recount (PrefixTree (Some cs) k n) True =
     (PrefixTree (Some (map (\<lambda>(s, c). (s, fst (recount c True))) cs)) k
        ((if k then 1 else 0) + sum_list (map (\<lambda>(s, c). snd (recount c True)) cs)),
      (if k then 1 else 0) + sum_list (map (\<lambda>(s, c). snd (recount c True)) cs))"
  by (simp add: recount_fold Let_def)

lemma recount_None:
  "recount (PrefixTree None k n) b =
     (PrefixTree None k (if k then 1 else 0), if k then 1 else 0)"
  by (simp add: Let_def)

lemma recount_False:
  "recount (PrefixTree (Some cs) k n) False =
     (PrefixTree (Some cs) k (if k then 1 else 0), if k then 1 else 0)"
  by (simp add: Let_def)

declare recount.simps [simp del]

lemma trie_cases_induct [case_names Leaf Inner]:
  assumes "\<And>k n. P (PrefixTree None k n)"
    and "\<And>cs k n. (\<And>s c. (s, c) \<in> set cs \<Longrightarrow> P c) \<Longrightarrow> P (PrefixTree (Some cs) k n)"
  shows "P t"
proof (induction t)
  case (PrefixTree ch k n)
  show ?case
  proof (cases ch)
    case None
    then show ?thesis using assms(1) by simp
  next
    case (Some cs)
    have "P c" if "(s, c) \<in> set cs" for s c
      using PrefixTree[of cs "(s, c)" c] that Some by simp
    then show ?thesis using assms(2) Some by simp
  qed
qed

lemma size_list_recount:
  assumes "\<And>s c. (s, c) \<in> set cs \<Longrightarrow> size (fst (recount c True)) = size c"
  shows "size_list (size_prod (\<lambda>_. 0) size) (map (\<lambda>(s, c). (s, fst (recount c True))) cs)
     = size_list (size_prod (\<lambda>_. 0) size) cs"
  using assms
proof (induction cs)
  case Nil
  show ?case by simp
next
  case (Cons x xs)
  obtain s c where x: "x = (s, c)" by (cases x)
  have 1: "size (fst (recount c True)) = size c" using Cons.prems[of s c] x by simp
  have 2: "size_list (size_prod (\<lambda>_. 0) size) (map (\<lambda>(s, c). (s, fst (recount c True))) xs)
     = size_list (size_prod (\<lambda>_. 0) size) xs"
  proof (rule Cons.IH)
    fix s' c' assume "(s', c') \<in> set xs"
    then show "size (fst (recount c' True)) = size c'" using Cons.prems[of s' c'] by simp
  qed
  show ?case using 1 2 by (simp add: x)
qed

lemma size_recount: "size (fst (recount t b)) = size t"
proof (induction t arbitrary: b rule: trie_cases_induct)
  case (Leaf k n)
  show ?case by (simp add: recount_None)
next
  case (Inner cs k n)
  show ?case
  proof (cases b)
    case True
    have "size_list (size_prod (\<lambda>_. 0) size) (map (\<lambda>(s, c). (s, fst (recount c True))) cs)
     = size_list (size_prod (\<lambda>_. 0) size) cs"
      by (rule size_list_recount) (rule Inner)
    then show ?thesis using True by (simp add: recount_Some)
  next
    case False
    then show ?thesis by (simp add: recount_False)
  qed
qed

lemma size_child_lt:
  assumes "(s, c) \<in> set cs"
  shows "size c < size (PrefixTree (Some cs) k n)"
proof -
  have "size c \<le> size_list (size_prod (\<lambda>_. 0) size) cs"
    using assms by (induction cs) auto
  then show ?thesis by simp
qed

lemma size_recount_child_lt:
  assumes "map_of cs s = Some c" and "(c1, tot) = recount c True"
  shows "size c1 < size (PrefixTree (Some cs) k n)"
proof -
  have "(s, c) \<in> set cs" using assms(1) by (rule map_of_SomeD)
  then have "size c < size (PrefixTree (Some cs) k n)" by (rule size_child_lt)
  moreover have "c1 = fst (recount c True)" using assms(2) by (metis fst_conv)
  ultimately show ?thesis by (simp only: size_recount)
qed

section \<open>Materialization (\<open>to_nodes\<close>)\<close>

text \<open>
  A display node is the dict \<open>to_nodes\<close> builds: id, label, icon, and for a folder the
  list of its children. \<open>to_nodes\<close> returns the tree as well, because the \<open>recount\<close>
  it calls on every child that has children refreshes the \<open>count\<close> fields below that
  child. The loop visits the segments in the order of \<open>sorted\<close> (a stable sort on
  the lower-cased segment) and looks the child up in the dict; a visit changes the
  entry of its own segment only, so the child is looked up in the children as they
  were when the loop began. A missing segment cannot occur; the model skips it.
  The parameter \<open>prefix\<close> of the source is \<open>pfx\<close> here.
\<close>

datatype node = Node (node_id: string) (label: string) (icon: string)
  (node_children: "node list option")

function to_nodes :: "trie \<Rightarrow> string \<Rightarrow> trie \<times> node list" where
  "to_nodes (PrefixTree None k n) pfx = (PrefixTree None k n, [])"
| "to_nodes (PrefixTree (Some cs) k n) pfx =
     (let (cs', folders, leaves) =
            fold (\<lambda>segment (acc, folders, leaves).
                    case map_of cs segment of
                      None \<Rightarrow> (acc, folders, leaves)
                    | Some child \<Rightarrow>
                        let child_id = (if pfx \<noteq> [] then pfx @ SEPARATOR @ segment
                                        else segment);
                            leaves' = (if is_key child
                                       then leaves @ [Node child_id segment ''key'' None]
                                       else leaves)
                        in if children child \<noteq> None then
                             let (child1, total) = recount child True;
                                 children_count = total - (if is_key child then 1 else 0);
                                 (child2, sub) = to_nodes child1 child_id
                             in (AList.update segment child2 acc,
                                 folders @ [Node child_id
                                              (segment @ '' ('' @ str_int children_count @ '')'')
                                              ''folder'' (Some sub)],
                                 leaves')
                           else (acc, folders, leaves'))
                 (sort_key lower (map fst cs)) (cs, [], [])
      in (PrefixTree (Some cs') k n, folders @ leaves))"
  by pat_completeness auto
termination
proof (relation "measure (\<lambda>(t, p). size t)", goal_cases)
  case 1
  show ?case by simp
next
  case 2
  then show ?case
    by (auto simp del: trie.size intro: size_recount_child_lt)
qed

text \<open>
  \<open>_on_item_clicked\<close>: the key passed to the selection callback, if any.
\<close>

definition on_item_clicked :: "string set \<Rightarrow> node \<Rightarrow> string option" where
  "on_item_clicked key_set item =
     (if icon item = ''key'' \<and> node_id item \<noteq> [] \<and> node_id item \<in> key_set
      then Some (node_id item) else None)"

section \<open>The connection manager (\<open>ThreadSafeRedisManager\<close> in \<open>redis_client.py\<close>)\<close>

text \<open>
  A \<open>redis.Redis\<close> object is the record of the keyword arguments it was made from, a
  \<open>ThreadPoolExecutor\<close> the record of its two. What a call does to the world outside
  the manager is returned as a list of events, in the order in which it happens: a
  \<open>ping\<close>, a \<open>close\<close>, a \<open>shutdown\<close>, a \<open>select\<close>, a task submitted to a pool and
  awaited with a timeout in seconds. The answer of the server to \<open>ping\<close> and to
  \<open>select\<close> is a parameter: \<open>None\<close> when the call returns, \<open>Some e\<close> when it raises
  an exception whose text is \<open>e\<close>. \<open>close\<close> is taken not to raise. An exception is
  a value of type \<open>error\<close>: the built-in \<open>ConnectionError\<close> with its message, the
  \<open>TimeoutError\<close> of \<open>Future.result\<close>, or whatever the command itself raised.
\<close>

datatype error = ConnectionError string | TimeoutError | Raised string

fun str_error :: "error \<Rightarrow> string" where
  "str_error (ConnectionError msg) = msg"
| "str_error TimeoutError = ''''"
| "str_error (Raised msg) = msg"

record redis_client =
  cfg_host :: string
  cfg_port :: int
  cfg_db :: int
  cfg_password :: "string option"
  cfg_username :: "string option"
  socket_connect_timeout :: int
  socket_timeout :: int
  decode_responses :: bool
  health_check_interval :: int

record pool =
  max_workers :: nat
  thread_name_prefix :: string

datatype event =
    Ping redis_client
  | Closed redis_client
  | ShutDown pool
  | Select redis_client int
  | Submit pool int

record manager =
  client :: "redis_client option"
  raw_client :: "redis_client option"
  executor :: "pool option"
  host :: string
  port :: int
  db :: int
  password :: string
  username :: string

definition init_manager :: manager where
  "init_manager =
     \<lparr>client = None, raw_client = None, executor = None, host = ''localhost'', port = 6379,
      db = 0, password = '''', username = ''''\<rparr>"

definition connected :: "manager \<Rightarrow> bool" where
  "connected m = (client m \<noteq> None)"

definition client_prop :: "manager \<Rightarrow> error + redis_client" where
  "client_prop m =
     (case client m of
        None \<Rightarrow> Inl (ConnectionError ''Not connected to Redis'')
      | Some c \<Rightarrow> Inr c)"

definition or_None :: "string \<Rightarrow> string option" where
  "or_None s = (if s = [] then None else Some s)"

definition test_client :: "string \<Rightarrow> int \<Rightarrow> int \<Rightarrow> string \<Rightarrow> string \<Rightarrow> redis_client" where
  "test_client h p d pw un =
     \<lparr>cfg_host = h, cfg_port = p, cfg_db = d, cfg_password = or_None pw,
      cfg_username = or_None un, socket_connect_timeout = 5, socket_timeout = 10,
      decode_responses = True, health_check_interval = 0\<rparr>"

definition retire :: "manager \<Rightarrow> event list" where
  "retire m =
     (case client m of None \<Rightarrow> [] | Some c \<Rightarrow> [Closed c]) @
     (case raw_client m of None \<Rightarrow> [] | Some c \<Rightarrow> [Closed c]) @
     (case executor m of None \<Rightarrow> [] | Some ex \<Rightarrow> [ShutDown ex])"

definition connect ::
  "(redis_client \<Rightarrow> string option) \<Rightarrow> manager \<Rightarrow> string \<Rightarrow> int \<Rightarrow> int \<Rightarrow> string \<Rightarrow> string
     \<Rightarrow> (error + unit) \<times> manager \<times> event list" where
  "connect ping m h p d pw un =
     (let tc = test_client h p d pw un
      in case ping tc of
           Some e \<Rightarrow>
             (Inl (ConnectionError
                     (''Failed to connect to '' @ h @ '':'' @ str_int p @ '': '' @ e)),
              m, [Ping tc, Closed tc])
         | None \<Rightarrow>
             let common = tc\<lparr>health_check_interval := 30\<rparr>
             in (Inr (),
                 m\<lparr>client := Some common,
                   raw_client := Some (common\<lparr>decode_responses := False\<rparr>),
                   executor := Some \<lparr>max_workers = 4, thread_name_prefix = ''redis_worker''\<rparr>,
                   host := h, port := p, db := d, password := pw, username := un\<rparr>,
                 [Ping tc, Closed tc] @ retire m))"

definition disconnect :: "manager \<Rightarrow> manager \<times> event list" where
  "disconnect m = (m\<lparr>client := None, raw_client := None, executor := None\<rparr>, retire m)"

definition select_db ::
  "(redis_client \<Rightarrow> int \<Rightarrow> string option) \<Rightarrow> manager \<Rightarrow> int
     \<Rightarrow> (error + unit) \<times> manager \<times> event list" where
  "select_db select m d =
     (case (case client m of
              None \<Rightarrow> Inr []
            | Some c \<Rightarrow> (case select c d of Some e \<Rightarrow> Inl e | None \<Rightarrow> Inr [Select c d])) of
        Inl e \<Rightarrow> (Inl (Raised e), m, [])
      | Inr ev1 \<Rightarrow>
          (case (case raw_client m of
                   None \<Rightarrow> Inr []
                 | Some c \<Rightarrow> (case select c d of Some e \<Rightarrow> Inl e | None \<Rightarrow> Inr [Select c d])) of
             Inl e \<Rightarrow> (Inl (Raised e), m, ev1)
           | Inr ev2 \<Rightarrow> (Inr (), m\<lparr>db := d\<rparr>, ev1 @ ev2)))"

text \<open>
  What the submitted call does within the timeout of \<open>Future.result\<close> is a parameter of
  \<open>execute\<close>: it returns a value, raises, or has no result in time.
\<close>

datatype 'a outcome = Returns 'a | Raises string | NoResultInTime

definition execute :: "manager \<Rightarrow> 'a outcome \<Rightarrow> (error + 'a) \<times> event list" where
  "execute m call =
     (case executor m of
        None \<Rightarrow> (Inl (ConnectionError ''Not connected to Redis''), [])
      | Some ex \<Rightarrow>
          (case call of
             Returns v \<Rightarrow> Inr v
           | Raises e \<Rightarrow> Inl (Raised e)
           | NoResultInTime \<Rightarrow> Inl TimeoutError,
           [Submit ex 30]))"

text \<open>
  The commands the key operations submit, as the server answers them. \<open>self.client\<close> is
  the property that raises when there is no client; it is evaluated before \<open>execute\<close> is
  called.
\<close>

record server =
  scan_cmd :: "redis_client \<Rightarrow> int \<Rightarrow> string \<Rightarrow> int \<Rightarrow> (int \<times> string list) outcome"
  type_cmd :: "redis_client \<Rightarrow> string \<Rightarrow> string outcome"
  dbsize_cmd :: "redis_client \<Rightarrow> int outcome"

definition scan_keys ::
  "server \<Rightarrow> manager \<Rightarrow> string \<Rightarrow> int \<Rightarrow> int \<Rightarrow> (error + int \<times> string list) \<times> event list" where
  "scan_keys srv m pat cnt cur =
     (case client_prop m of
        Inl e \<Rightarrow> (Inl e, [])
      | Inr c \<Rightarrow> execute m (scan_cmd srv c cur pat cnt))"

definition get_db_size :: "server \<Rightarrow> manager \<Rightarrow> (error + int) \<times> event list" where
  "get_db_size srv m =
     (case client_prop m of
        Inl e \<Rightarrow> (Inl e, [])
      | Inr c \<Rightarrow> execute m (dbsize_cmd srv c))"

definition get_key_type :: "server \<Rightarrow> manager \<Rightarrow> string \<Rightarrow> (error + string) \<times> event list" where
  "get_key_type srv m key =
     (case client_prop m of
        Inl e \<Rightarrow> (Inl e, [])
      | Inr c \<Rightarrow> execute m (type_cmd srv c key))"

section \<open>The key browser (\<open>KeysBrowser\<close> in \<open>ui/keys_browser.py\<close>)\<close>

text \<open>
  The state of the widget: the fields the methods read and write, the text of the count
  label, the visibility and the enabling of the two buttons, and the nodes last put into
  the tree widget (\<open>tree_items\<close>; the expanded state kept across a rebuild is left out).
  \<open>try_exact_key\<close> is \<open>_try_exact_key\<close> run from its first statement to its last with
  nothing in between.
\<close>

record browser =
  key_set :: "string set"
  prefix_tree :: trie
  cursor :: int
  pattern :: string
  exact_search :: bool
  is_search_mode :: bool
  count_label :: string
  more_btn_visible :: bool
  load_all_btn_visible :: bool
  more_btn_enabled :: bool
  load_all_btn_enabled :: bool
  loading_timer :: bool
  tree_items :: "node list"


definition update_tree :: "browser \<Rightarrow> browser" where
  "update_tree b =
     (let (t, nodes) = to_nodes (prefix_tree b) ''''
      in b\<lparr>prefix_tree := t, tree_items := nodes\<rparr>)"

definition show_error :: "error \<Rightarrow> browser \<Rightarrow> browser" where
  "show_error e b =
     (update_tree (b\<lparr>count_label := ''Error: '' @ str_error e\<rparr>))
       \<lparr>more_btn_visible := False, load_all_btn_visible := False\<rparr>"

definition try_exact_key :: "server \<Rightarrow> manager \<Rightarrow> browser \<Rightarrow> string \<Rightarrow> browser" where
  "try_exact_key srv m b key_name =
     (if \<not> connected m then b
      else
        let b1 = b\<lparr>cursor := 0, key_set := {}, prefix_tree := new_tree\<rparr>
        in case fst (get_key_type srv m key_name) of
             Inl e \<Rightarrow> show_error e b1
           | Inr key_type \<Rightarrow>
               if key_type \<noteq> ''none'' then
                 let b2 = b1\<lparr>key_set := insert key_name (key_set b1),
                             prefix_tree := insert_trie (prefix_tree b1) (split key_name)\<rparr>;
                     b3 = b2\<lparr>prefix_tree := fst (recount (prefix_tree b2) True)\<rparr>;
                     b4 = update_tree b3
                 in case fst (get_db_size srv m) of
                      Inl e \<Rightarrow> show_error e b4
                    | Inr db_size \<Rightarrow>
                        b4\<lparr>count_label :=
                              ''Found: '' @ str_int (int (card (key_set b4))) @ '' key(s)'',
                           more_btn_visible := False, load_all_btn_visible := False\<rparr>
               else
                 (update_tree (b1\<lparr>count_label := ''Key not found''\<rparr>))
                   \<lparr>more_btn_visible := False, load_all_btn_visible := False\<rparr>)"

section \<open>The user interface and the load-all thread, statement by statement\<close>

text \<open>
  \<open>_load_all\<close> starts a thread that runs beside the handlers of the user interface.
  Both work on the fields of the browser, and each reads a field anew whenever it uses
  it. Every statement that reads or writes a field of the browser, calls the manager or
  takes or leaves \<open>_tree_lock\<close> is one step here; a statement on local variables only is
  done together with the step before it. A call of \<open>add\<close>, \<open>insert\<close>, \<open>recount\<close> or
  \<open>to_nodes\<close> is taken as one step: a switch of threads inside such a call is not
  modelled.

  The handler that runs on the interface thread is the list \<open>ui\<close> of the statements it
  still has to do; a statement may put further ones in front (the body of a branch, the
  turns of a loop) or drop what is left (an exception). An event is taken when no
  handler runs: a search with the stripped text of the pattern input, a refresh, a click
  on one of the two buttons, which must be visible and enabled, a change of the database
  box, the delivery of \<open>finish_load_signal\<close>. \<open>After_load\<close>, \<open>After_exact\<close> and
  \<open>After_finish\<close> say in which handler the size query stands: \<open>_load_keys\<close> and
  \<open>_try_exact_key\<close> catch what it raises, \<open>_finish_load_all\<close> does not. The timer
  that animates the label while loading is a flag; its callback, which writes the label
  only, is left out.

  The thread is \<open>load_all_thread\<close> with its local variables \<open>cursor\<close> and
  \<open>total_loaded\<close> and the keys of the page it has not looked at yet: about to scan,
  about to look at the next key (or, with none left, at the cursor), about to take the
  lock, to add the key to the key set, to insert it into the tree, to leave the lock;
  \<open>Finished\<close> once it has emitted the signal, \<open>Crashed\<close> when a scan raised. A thread
  that waits for the lock does not move. \<open>sys_step\<close> is one move of either, \<open>run\<close> a
  schedule of moves.
\<close>

datatype tid = UI | Worker

datatype after = After_load | After_exact | After_finish

datatype ui_stmt =
    Set_pattern string
  | Set_cursor int
  | New_key_set
  | New_tree
  | Set_search_mode bool
  | Load_keys
  | Scan_page
  | Test_key string
  | Acquire
  | Add_key string
  | Insert_key string
  | Release
  | Recount
  | To_nodes
  | Show_buttons
  | Hide_buttons
  | Enable_buttons
  | Db_size after
  | Label_loaded int
  | Label_found
  | Set_label string
  | Select_db int
  | Try_exact string
  | Type_query string
  | Start_load_all
  | Stop_timer

datatype drain =
    At_scan int int
  | At_keys int int "string list"
  | At_lock int int string "string list"
  | At_add int int string "string list"
  | At_insert int int string "string list"
  | At_release int int string "string list"
  | Finished int
  | Crashed error

record sys =
  mgr :: manager
  brw :: browser
  tree_lock :: "tid option"
  ui :: "ui_stmt list"
  thr :: "drain option"


definition update_tree_stmts :: "ui_stmt list" where
  "update_tree_stmts = [Acquire, To_nodes, Release]"

definition refresh_stmts :: "ui_stmt list" where
  "refresh_stmts = [Set_cursor 0, New_key_set, New_tree, Load_keys]"

definition except_exact :: "error \<Rightarrow> ui_stmt list" where
  "except_exact e = Set_label (''Error: '' @ str_error e) # update_tree_stmts @ [Hide_buttons]"

fun ui_exec ::
  "(redis_client \<Rightarrow> int \<Rightarrow> string option) \<Rightarrow> server \<Rightarrow> ui_stmt \<Rightarrow> ui_stmt list \<Rightarrow> sys \<Rightarrow> sys" where
  "ui_exec select srv (Set_pattern p) rest s = s\<lparr>brw := (brw s)\<lparr>pattern := p\<rparr>, ui := rest\<rparr>"
| "ui_exec select srv (Set_cursor c) rest s = s\<lparr>brw := (brw s)\<lparr>cursor := c\<rparr>, ui := rest\<rparr>"
| "ui_exec select srv New_key_set rest s = s\<lparr>brw := (brw s)\<lparr>key_set := {}\<rparr>, ui := rest\<rparr>"
| "ui_exec select srv New_tree rest s = s\<lparr>brw := (brw s)\<lparr>prefix_tree := new_tree\<rparr>, ui := rest\<rparr>"
| "ui_exec select srv (Set_search_mode v) rest s =
     s\<lparr>brw := (brw s)\<lparr>is_search_mode := v\<rparr>, ui := rest\<rparr>"
| "ui_exec select srv Load_keys rest s =
     s\<lparr>ui := (if \<not> connected (mgr s) then rest else Scan_page # rest)\<rparr>"
| "ui_exec select srv Scan_page rest s =
     (case fst (scan_keys srv (mgr s) (pattern (brw s)) 200 (cursor (brw s))) of
        Inl e \<Rightarrow> s\<lparr>ui := Set_label (''Error: '' @ str_error e) # rest\<rparr>
      | Inr (new_cursor, new_keys) \<Rightarrow>
          s\<lparr>ui := Set_cursor new_cursor # map Test_key new_keys @
                    [Acquire, Recount, Release] @ update_tree_stmts @
                    [Show_buttons, Db_size After_load] @ rest\<rparr>)"
| "ui_exec select srv (Test_key key) rest s =
     s\<lparr>ui := (if key \<notin> key_set (brw s)
                then [Acquire, Add_key key, Insert_key key, Release] @ rest
                else rest)\<rparr>"
| "ui_exec select srv Acquire rest s =
     (if tree_lock s = None then s\<lparr>tree_lock := Some UI, ui := rest\<rparr> else s)"
| "ui_exec select srv (Add_key key) rest s =
     s\<lparr>brw := (brw s)\<lparr>key_set := insert key (key_set (brw s))\<rparr>, ui := rest\<rparr>"
| "ui_exec select srv (Insert_key key) rest s =
     s\<lparr>brw := (brw s)\<lparr>prefix_tree := insert_trie (prefix_tree (brw s)) (split key)\<rparr>,
       ui := rest\<rparr>"
| "ui_exec select srv Release rest s = s\<lparr>tree_lock := None, ui := rest\<rparr>"
| "ui_exec select srv Recount rest s =
     s\<lparr>brw := (brw s)\<lparr>prefix_tree := fst (recount (prefix_tree (brw s)) True)\<rparr>, ui := rest\<rparr>"
| "ui_exec select srv To_nodes rest s = s\<lparr>brw := update_tree (brw s), ui := rest\<rparr>"
| "ui_exec select srv Show_buttons rest s =
     s\<lparr>brw := (brw s)\<lparr>more_btn_visible := (cursor (brw s) \<noteq> 0),
                       load_all_btn_visible := (cursor (brw s) \<noteq> 0)\<rparr>,
       ui := rest\<rparr>"
| "ui_exec select srv Hide_buttons rest s =
     s\<lparr>brw := (brw s)\<lparr>more_btn_visible := False, load_all_btn_visible := False\<rparr>, ui := rest\<rparr>"
| "ui_exec select srv Enable_buttons rest s =
     s\<lparr>brw := (brw s)\<lparr>more_btn_enabled := True, load_all_btn_enabled := True\<rparr>, ui := rest\<rparr>"
| "ui_exec select srv (Db_size a) rest s =
     (case fst (get_db_size srv (mgr s)) of
        Inl e \<Rightarrow>
          (case a of
             After_load \<Rightarrow> s\<lparr>ui := Set_label (''Error: '' @ str_error e) # rest\<rparr>
           | After_exact \<Rightarrow> s\<lparr>ui := except_exact e @ rest\<rparr>
           | After_finish \<Rightarrow> s\<lparr>ui := []\<rparr>)
      | Inr db_size \<Rightarrow>
          (case a of
             After_load \<Rightarrow> s\<lparr>ui := Label_loaded db_size # rest\<rparr>
           | After_exact \<Rightarrow> s\<lparr>ui := [Label_found, Hide_buttons] @ rest\<rparr>
           | After_finish \<Rightarrow>
               s\<lparr>ui := [Label_loaded db_size, Hide_buttons, Enable_buttons] @ rest\<rparr>))"
| "ui_exec select srv (Label_loaded db_size) rest s =
     s\<lparr>brw := (brw s)\<lparr>count_label :=
                         str_int (int (card (key_set (brw s)))) @ '' loaded / '' @
                         str_int db_size @ '' total''\<rparr>,
       ui := rest\<rparr>"
| "ui_exec select srv Label_found rest s =
     s\<lparr>brw := (brw s)\<lparr>count_label :=
                         ''Found: '' @ str_int (int (card (key_set (brw s)))) @ '' key(s)''\<rparr>,
       ui := rest\<rparr>"
| "ui_exec select srv (Set_label txt) rest s =
     s\<lparr>brw := (brw s)\<lparr>count_label := txt\<rparr>, ui := rest\<rparr>"
| "ui_exec select srv (Select_db index) rest s =
     (if connected (mgr s) then
        (case select_db select (mgr s) index of
           (Inl e, m', evs) \<Rightarrow> s\<lparr>mgr := m', ui := []\<rparr>
         | (Inr u, m', evs) \<Rightarrow> s\<lparr>mgr := m', ui := refresh_stmts @ rest\<rparr>)
      else s\<lparr>ui := rest\<rparr>)"
| "ui_exec select srv (Try_exact key_name) rest s =
     s\<lparr>ui := (if \<not> connected (mgr s) then rest
                else [Set_cursor 0, New_key_set, New_tree, Type_query key_name] @ rest)\<rparr>"
| "ui_exec select srv (Type_query key_name) rest s =
     (case fst (get_key_type srv (mgr s) key_name) of
        Inl e \<Rightarrow> s\<lparr>ui := except_exact e @ rest\<rparr>
      | Inr key_type \<Rightarrow>
          if key_type \<noteq> ''none''
          then s\<lparr>ui := [Add_key key_name, Insert_key key_name, Recount] @ update_tree_stmts @
                         [Db_size After_exact] @ rest\<rparr>
          else s\<lparr>ui := Set_label ''Key not found'' # update_tree_stmts @ [Hide_buttons] @ rest\<rparr>)"
| "ui_exec select srv Start_load_all rest s =
     (if \<not> connected (mgr s) then s\<lparr>ui := rest\<rparr>
      else s\<lparr>brw := (brw s)\<lparr>more_btn_enabled := False, load_all_btn_enabled := False,
                            loading_timer := True\<rparr>,
             thr := Some (At_scan 0 0), ui := rest\<rparr>)"
| "ui_exec select srv Stop_timer rest s =
     s\<lparr>brw := (brw s)\<lparr>loading_timer := False\<rparr>, ui := rest\<rparr>"

datatype ui_event = Search string | Refresh | Load_more | Db_change int | Load_all | Finish_load

fun handler :: "ui_event \<Rightarrow> sys \<Rightarrow> sys" where
  "handler (Search raw) s =
     s\<lparr>ui := (if exact_search (brw s) \<and> raw \<noteq> [] then [Try_exact raw]
                else [Set_pattern (if raw \<noteq> [] then raw else ''*''), Set_cursor 0, New_key_set,
                      New_tree, Set_search_mode (\<not> (raw = '''' \<or> raw = ''*'')), Load_keys])\<rparr>"
| "handler Refresh s = s\<lparr>ui := refresh_stmts\<rparr>"
| "handler Load_more s =
     (if more_btn_visible (brw s) \<and> more_btn_enabled (brw s) then s\<lparr>ui := [Load_keys]\<rparr> else s)"
| "handler (Db_change index) s = s\<lparr>ui := [Select_db index]\<rparr>"
| "handler Load_all s =
     (if load_all_btn_visible (brw s) \<and> load_all_btn_enabled (brw s)
      then s\<lparr>ui := [Start_load_all]\<rparr> else s)"
| "handler Finish_load s =
     (case thr s of
        Some (Finished loaded_count) \<Rightarrow>
          s\<lparr>ui := [Stop_timer, Recount] @ update_tree_stmts @ [Db_size After_finish],
            thr := None\<rparr>
      | _ \<Rightarrow> s)"

definition dispatch :: "ui_event \<Rightarrow> sys \<Rightarrow> sys" where
  "dispatch ev s = (if ui s \<noteq> [] then s else handler ev s)"

fun worker_exec :: "server \<Rightarrow> drain \<Rightarrow> sys \<Rightarrow> sys" where
  "worker_exec srv (At_scan cur total_loaded) s =
     s\<lparr>thr := Some (case fst (scan_keys srv (mgr s) (pattern (brw s)) 200 cur) of
                       Inl e \<Rightarrow> Crashed e
                     | Inr (cur', keys) \<Rightarrow> At_keys cur' total_loaded keys)\<rparr>"
| "worker_exec srv (At_keys cur total_loaded []) s =
     s\<lparr>thr := Some (if cur = 0 then Finished total_loaded else At_scan cur total_loaded)\<rparr>"
| "worker_exec srv (At_keys cur total_loaded (key # keys)) s =
     s\<lparr>thr := Some (if key \<notin> key_set (brw s) then At_lock cur total_loaded key keys
                     else At_keys cur (total_loaded + 1) keys)\<rparr>"
| "worker_exec srv (At_lock cur total_loaded key keys) s =
     (if tree_lock s = None
      then s\<lparr>tree_lock := Some Worker, thr := Some (At_add cur total_loaded key keys)\<rparr>
      else s)"
| "worker_exec srv (At_add cur total_loaded key keys) s =
     s\<lparr>brw := (brw s)\<lparr>key_set := insert key (key_set (brw s))\<rparr>,
       thr := Some (At_insert cur total_loaded key keys)\<rparr>"
| "worker_exec srv (At_insert cur total_loaded key keys) s =
     s\<lparr>brw := (brw s)\<lparr>prefix_tree := insert_trie (prefix_tree (brw s)) (split key)\<rparr>,
       thr := Some (At_release cur total_loaded key keys)\<rparr>"
| "worker_exec srv (At_release cur total_loaded key keys) s =
     s\<lparr>tree_lock := None, thr := Some (At_keys cur (total_loaded + 1) keys)\<rparr>"
| "worker_exec srv (Finished total_loaded) s = s"
| "worker_exec srv (Crashed e) s = s"

datatype move = Event ui_event | Ui_step | Worker_step

fun sys_step ::
  "(redis_client \<Rightarrow> int \<Rightarrow> string option) \<Rightarrow> server \<Rightarrow> move \<Rightarrow> sys \<Rightarrow> sys" where
  "sys_step select srv (Event ev) s = dispatch ev s"
| "sys_step select srv Ui_step s =
     (case ui s of [] \<Rightarrow> s | st # rest \<Rightarrow> ui_exec select srv st rest s)"
| "sys_step select srv Worker_step s =
     (case thr s of None \<Rightarrow> s | Some d \<Rightarrow> worker_exec srv d s)"

definition run ::
  "(redis_client \<Rightarrow> int \<Rightarrow> string option) \<Rightarrow> server \<Rightarrow> move list \<Rightarrow> sys \<Rightarrow> sys" where
  "run select srv moves s = fold (sys_step select srv) moves s"

section \<open>An example server and a connected manager\<close>








section \<open>Auxiliary notions for the prefix tree\<close>

text \<open>
  \<open>key_count\<close> is the specification's count of a node: the number of \<open>is_key\<close>
  nodes in the subtree rooted there, the node included. \<open>node_at\<close> walks down a
  component path. \<open>child_id\<close>, \<open>leaf_entries\<close> and \<open>folder_entries\<close> name the parts
  of one visit of the loop of \<open>to_nodes\<close>, \<open>visit\<close> is that loop's body.
\<close>

definition child_id :: "string \<Rightarrow> string \<Rightarrow> string" where
  "child_id pfx segment = (if pfx \<noteq> [] then pfx @ SEPARATOR @ segment else segment)"

definition leaf_entries :: "(string \<times> trie) list \<Rightarrow> string \<Rightarrow> string \<Rightarrow> node list" where
  "leaf_entries cs pfx segment =
     (case map_of cs segment of
        None \<Rightarrow> []
      | Some child \<Rightarrow>
          if is_key child then [Node (child_id pfx segment) segment ''key'' None] else [])"

definition folder_entries :: "(string \<times> trie) list \<Rightarrow> string \<Rightarrow> string \<Rightarrow> node list" where
  "folder_entries cs pfx segment =
     (case map_of cs segment of
        None \<Rightarrow> []
      | Some child \<Rightarrow>
          if children child \<noteq> None
          then [Node (child_id pfx segment)
                  (segment @ '' ('' @
                     str_int (snd (recount child True) - (if is_key child then 1 else 0)) @ '')'')
                  ''folder''
                  (Some (snd (to_nodes (fst (recount child True)) (child_id pfx segment))))]
          else [])"

definition visit ::
  "(string \<times> trie) list \<Rightarrow> string \<Rightarrow> string \<Rightarrow>
   (string \<times> trie) list \<times> node list \<times> node list \<Rightarrow>
   (string \<times> trie) list \<times> node list \<times> node list" where
  "visit cs pfx =
     (\<lambda>segment (acc, folders, leaves).
                    case map_of cs segment of
                      None \<Rightarrow> (acc, folders, leaves)
                    | Some child \<Rightarrow>
                        let child_id = (if pfx \<noteq> [] then pfx @ SEPARATOR @ segment
                                        else segment);
                            leaves' = (if is_key child
                                       then leaves @ [Node child_id segment ''key'' None]
                                       else leaves)
                        in if children child \<noteq> None then
                             let (child1, total) = recount child True;
                                 children_count = total - (if is_key child then 1 else 0);
                                 (child2, sub) = to_nodes child1 child_id
                             in (AList.update segment child2 acc,
                                 folders @ [Node child_id
                                              (segment @ '' ('' @ str_int children_count @ '')'')
                                              ''folder'' (Some sub)],
                                 leaves')
                           else (acc, folders, leaves'))"

lemma to_nodes_Some:
  "to_nodes (PrefixTree (Some cs) k n) pfx =
     (let (cs', folders, leaves) = fold (visit cs pfx) (sort_key lower (map fst cs)) (cs, [], [])
      in (PrefixTree (Some cs') k n, folders @ leaves))"
  unfolding visit_def by (rule to_nodes.simps(2))

lemma visit_step:
  "visit cs pfx s (acc, fs, ls) =
     ((case map_of cs s of
         None \<Rightarrow> acc
       | Some child \<Rightarrow>
           if children child \<noteq> None
           then AList.update s (fst (to_nodes (fst (recount child True)) (child_id pfx s))) acc
           else acc),
      fs @ folder_entries cs pfx s, ls @ leaf_entries cs pfx s)"
  by (cases "map_of cs s")
     (simp_all add: visit_def leaf_entries_def folder_entries_def child_id_def Let_def
        case_prod_beta)

lemma to_nodes_fold:
  "snd (fold (visit cs pfx) segs (acc0, fs0, ls0)) =
     (fs0 @ concat (map (folder_entries cs pfx) segs),
      ls0 @ concat (map (leaf_entries cs pfx) segs))"
proof (induction segs arbitrary: acc0 fs0 ls0)
  case Nil
  show ?case by simp
next
  case (Cons s segs)
  show ?case by (simp add: visit_step Cons.IH)
qed

lemma to_nodes_out:
  "snd (to_nodes (PrefixTree (Some cs) k n) pfx) =
     concat (map (folder_entries cs pfx) (sort_key lower (map fst cs))) @
     concat (map (leaf_entries cs pfx) (sort_key lower (map fst cs)))"
  using to_nodes_fold[of cs pfx "sort_key lower (map fst cs)" cs "[]" "[]"]
  by (simp add: to_nodes_Some case_prod_beta Let_def del: to_nodes.simps(2))

fun key_count :: "trie \<Rightarrow> int" where
  "key_count (PrefixTree ch k n) =
     (if k then 1 else 0) +
     (case ch of None \<Rightarrow> 0 | Some cs \<Rightarrow> sum_list (map (\<lambda>(segment, child). key_count child) cs))"

declare to_nodes.simps(2) [simp del]

lemma recount_value: "snd (recount t True) = key_count t"
proof (induction t rule: trie_cases_induct)
  case (Leaf k n)
  show ?case by (simp add: recount_None)
next
  case (Inner cs k n)
  have "map (\<lambda>(s, c). snd (recount c True)) cs = map (\<lambda>(s, c). key_count c) cs"
  proof (rule map_cong[OF refl])
    fix x assume "x \<in> set cs"
    then show "(case x of (s, c) \<Rightarrow> snd (recount c True)) = (case x of (s, c) \<Rightarrow> key_count c)"
      using Inner[of "fst x" "snd x"] by (simp add: case_prod_beta)
  qed
  then have "sum_list (map (\<lambda>(s, c). snd (recount c True)) cs)
      = sum_list (map (\<lambda>(s, c). key_count c) cs)"
    by (rule arg_cong)
  then show ?case by (simp add: recount_Some)
qed

lemma recount_count: "count (fst (recount t b)) = snd (recount t b)"
proof (cases t)
  case (PrefixTree ch k n)
  then show ?thesis
    by (cases ch; cases b) (simp_all add: recount_Some recount_False recount_None)
qed

lemma recount_is_key: "is_key (fst (recount t b)) = is_key t"
proof (cases t)
  case (PrefixTree ch k n)
  then show ?thesis
    by (cases ch; cases b) (simp_all add: recount_Some recount_False recount_None)
qed

lemma recount_children:
  "children (fst (recount t True)) =
     map_option (map (\<lambda>(s, c). (s, fst (recount c True)))) (children t)"
proof (cases t)
  case (PrefixTree ch k n)
  then show ?thesis
    by (cases ch) (simp_all add: recount_Some recount_None)
qed

lemma recount_idem: "recount (fst (recount t True)) True = recount t True"
proof (induction t rule: trie_cases_induct)
  case (Leaf k n)
  show ?case by (simp add: recount_None)
next
  case (Inner cs k n)
  have 1: "map ((\<lambda>(s, c). (s, fst (recount c True))) \<circ> (\<lambda>(s, c). (s, fst (recount c True)))) cs
           = map (\<lambda>(s, c). (s, fst (recount c True))) cs"
    using Inner by auto
  have 2: "map ((\<lambda>(s, c). snd (recount c True)) \<circ> (\<lambda>(s, c). (s, fst (recount c True)))) cs
           = map (\<lambda>(s, c). snd (recount c True)) cs"
    using Inner by auto
  show ?case by (simp add: recount_Some 1 2)
qed

lemma map_of_recounted:
  "map_of (map (\<lambda>(s, c). (s, fst (recount c True))) cs) s =
     map_option (\<lambda>c. fst (recount c True)) (map_of cs s)"
  by (induction cs) auto

lemma folder_entries_recount:
  "folder_entries (map (\<lambda>(s, c). (s, fst (recount c True))) cs) pfx = folder_entries cs pfx"
  by (rule ext, case_tac "map_of cs x")
     (simp_all add: folder_entries_def map_of_recounted recount_idem recount_is_key
        recount_children)

lemma leaf_entries_recount:
  "leaf_entries (map (\<lambda>(s, c). (s, fst (recount c True))) cs) pfx = leaf_entries cs pfx"
  by (rule ext, case_tac "map_of cs x")
     (simp_all add: leaf_entries_def map_of_recounted recount_is_key)

lemma to_nodes_recount: "snd (to_nodes (fst (recount t True)) pfx) = snd (to_nodes t pfx)"
proof (cases t)
  case (PrefixTree ch k n)
  show ?thesis
  proof (cases ch)
    case None
    then show ?thesis using PrefixTree by (simp add: recount_None)
  next
    case (Some cs)
    have "fst \<circ> (\<lambda>(s, c). (s, fst (recount c True))) = (fst :: string \<times> trie \<Rightarrow> string)"
      by auto
    then show ?thesis
      using PrefixTree Some
      by (simp add: recount_Some to_nodes_out folder_entries_recount leaf_entries_recount)
  qed
qed

lemma folder_entries_eq:
  "folder_entries cs pfx segment =
     (case map_of cs segment of
        None \<Rightarrow> []
      | Some child \<Rightarrow>
          if children child \<noteq> None
          then [Node (child_id pfx segment)
                  (segment @ '' ('' @
                     str_int (key_count child - (if is_key child then 1 else 0)) @ '')'')
                  ''folder''
                  (Some (snd (to_nodes child (child_id pfx segment))))]
          else [])"
  by (simp add: folder_entries_def recount_value to_nodes_recount split: option.splits)

fun node_at :: "trie \<Rightarrow> string list \<Rightarrow> trie option" where
  "node_at t [] = Some t"
| "node_at (PrefixTree ch k n) (part # parts) =
     (case ch of
        None \<Rightarrow> None
      | Some cs \<Rightarrow> (case map_of cs part of None \<Rightarrow> None | Some child \<Rightarrow> node_at child parts))"

definition is_key_at :: "trie \<Rightarrow> string list \<Rightarrow> bool" where
  "is_key_at t p = (case node_at t p of None \<Rightarrow> False | Some t' \<Rightarrow> is_key t')"

fun join_on :: "char \<Rightarrow> string list \<Rightarrow> string" where
  "join_on sep [] = []"
| "join_on sep [p] = p"
| "join_on sep (p # q # ps) = p @ sep # join_on sep (q # ps)"

lemma split_on_nonempty: "split_on sep s \<noteq> []"
  by (induction s) (auto split: list.splits)

lemma join_split_on: "join_on sep (split_on sep s) = s"
proof (induction s)
  case Nil
  show ?case by simp
next
  case (Cons c s)
  obtain p ps where ps: "split_on sep s = p # ps"
    using split_on_nonempty[of sep s] by (cases "split_on sep s") auto
  show ?case
    using Cons ps by (cases ps) auto
qed

lemma inj_split: "inj split"
proof (rule injI)
  fix a b assume "split a = split b"
  then have "join_on (CHR '':'') (split a) = join_on (CHR '':'') (split b)" by simp
  then show "a = b" by (simp add: split_def join_split_on)
qed

lemma node_at_new_tree:
  "(case node_at new_tree p of None \<Rightarrow> new_tree | Some t0 \<Rightarrow> t0) = new_tree"
  by (cases p) (simp_all add: new_tree_def)

lemma node_at_insert:
  "node_at (insert_trie t ps) p =
     (if prefix p ps
      then Some (insert_trie (case node_at t p of None \<Rightarrow> new_tree | Some t0 \<Rightarrow> t0)
                   (drop (length p) ps))
      else node_at t p)"
proof (induction p arbitrary: t ps)
  case Nil
  show ?case by simp
next
  case (Cons a p)
  obtain ch k n where t: "t = PrefixTree ch k n" by (cases t)
  show ?case
  proof (cases ps)
    case Nil
    then show ?thesis by (simp add: t)
  next
    case ps: (Cons b ps')
    define cs where "cs = (case ch of None \<Rightarrow> [] | Some cs \<Rightarrow> cs)"
    have na: "node_at t (x # p) = (case map_of cs x of None \<Rightarrow> None | Some c \<Rightarrow> node_at c p)"
      for x by (cases ch) (simp_all add: t cs_def)
    show ?thesis
    proof (cases "map_of cs b")
      case None
      have ins: "insert_trie t (b # ps') =
                   PrefixTree (Some (cs @ [(b, insert_trie new_tree ps')])) k n"
        using None by (simp add: t cs_def[symmetric])
      show ?thesis
      proof (cases "a = b")
        case True
        have "node_at (insert_trie t (b # ps')) (b # p) = node_at (insert_trie new_tree ps') p"
          using None by (simp add: ins map_add_def)
        moreover have "node_at t (b # p) = None" using None by (simp add: na)
        moreover have "\<not> prefix p ps' \<Longrightarrow> node_at new_tree p = None"
          by (cases p) (simp_all add: new_tree_def)
        ultimately show ?thesis
          using Cons.IH[of new_tree ps'] True by (simp add: ps node_at_new_tree)
      next
        case False
        have "node_at (insert_trie t (b # ps')) (a # p) = node_at t (a # p)"
          using False by (simp add: ins na map_add_def split: option.splits)
        then show ?thesis using False by (simp add: ps)
      qed
    next
      case (Some child)
      have ins: "insert_trie t (b # ps') =
                   PrefixTree (Some (AList.update b (insert_trie child ps') cs)) k n"
        using Some by (simp add: t cs_def[symmetric])
      show ?thesis
      proof (cases "a = b")
        case True
        have "node_at (insert_trie t (b # ps')) (b # p) = node_at (insert_trie child ps') p"
          by (simp add: ins update_conv')
        moreover have "node_at t (b # p) = node_at child p" using Some by (simp add: na)
        ultimately show ?thesis
          using Cons.IH[of child ps'] True by (simp add: ps)
      next
        case False
        have "node_at (insert_trie t (b # ps')) (a # p) = node_at t (a # p)"
          using False by (simp add: ins na update_conv')
        then show ?thesis using False by (simp add: ps)
      qed
    qed
  qed
qed

lemma sum_list_update:
  fixes g :: "trie \<Rightarrow> int"
  assumes "map_of cs b = Some c"
  shows "sum_list (map (\<lambda>(s, c). g c) (AList.update b v cs))
           = sum_list (map (\<lambda>(s, c). g c) cs) - g c + g v"
  using assms by (induction cs) (auto split: if_splits)

lemma key_count_insert:
  "key_count (insert_trie t ps) = key_count t + (if is_key_at t ps then 0 else 1)"
proof (induction ps arbitrary: t)
  case Nil
  show ?case by (cases t) (simp add: is_key_at_def)
next
  case (Cons b ps)
  obtain ch k n where t: "t = PrefixTree ch k n" by (cases t)
  define cs where "cs = (case ch of None \<Rightarrow> [] | Some cs \<Rightarrow> cs)"
  have kc: "key_count t = (if k then 1 else 0) + sum_list (map (\<lambda>(s, c). key_count c) cs)"
    by (cases ch) (simp_all add: t cs_def)
  have ka: "is_key_at t (b # ps) = (case map_of cs b of None \<Rightarrow> False | Some c \<Rightarrow> is_key_at c ps)"
    by (cases ch) (simp_all add: t cs_def is_key_at_def split: option.splits)
  show ?case
  proof (cases "map_of cs b")
    case None
    have ins: "insert_trie t (b # ps) =
                 PrefixTree (Some (cs @ [(b, insert_trie new_tree ps)])) k n"
      using None by (simp add: t cs_def[symmetric])
    have "\<not> is_key_at new_tree ps"
      by (cases ps) (simp_all add: is_key_at_def new_tree_def)
    then have "key_count (insert_trie new_tree ps) = 1"
      using Cons.IH[of new_tree] by (simp add: new_tree_def)
    then show ?thesis
      using None by (simp add: ins kc ka)
  next
    case (Some child)
    have ins: "insert_trie t (b # ps) =
                 PrefixTree (Some (AList.update b (insert_trie child ps) cs)) k n"
      using Some by (simp add: t cs_def[symmetric])
    show ?thesis
      using Some Cons.IH[of child] sum_list_update[OF Some, of key_count "insert_trie child ps"]
      by (simp add: ins kc ka)
  qed
qed

definition counts_ok :: "trie \<Rightarrow> string list set \<Rightarrow> bool" where
  "counts_ok t S \<longleftrightarrow>
     finite S \<and>
     (\<forall>p. case node_at t p of
            None \<Rightarrow> (\<forall>q\<in>S. \<not> prefix p q)
          | Some t0 \<Rightarrow> key_count t0 = int (card {q \<in> S. prefix p q}) \<and> (is_key t0 \<longleftrightarrow> p \<in> S))"

lemma node_at_append:
  "node_at t (p @ r) = (case node_at t p of None \<Rightarrow> None | Some t0 \<Rightarrow> node_at t0 r)"
proof (induction p arbitrary: t)
  case Nil
  show ?case by simp
next
  case (Cons a p)
  obtain ch k n where t: "t = PrefixTree ch k n" by (cases t)
  show ?case by (simp add: t Cons.IH split: option.splits)
qed

lemma is_key_insert_Cons: "is_key (insert_trie t (x # r)) = is_key t"
  by (cases t) (simp split: option.splits)

lemma is_key_at_new_tree: "\<not> is_key_at new_tree r"
  by (cases r) (simp_all add: is_key_at_def new_tree_def)

lemma node_at_new: "node_at new_tree p = (if p = [] then Some new_tree else None)"
  by (cases p) (simp_all add: new_tree_def)

lemma counts_ok_new: "counts_ok new_tree {}"
  by (simp add: counts_ok_def node_at_new) (simp add: new_tree_def)

lemma counts_ok_insert:
  assumes "counts_ok t S"
  shows "counts_ok (insert_trie t ps) (insert ps S)"
proof -
  have fin: "finite S" using assms by (simp add: counts_ok_def)
  have all: "case node_at t p of
               None \<Rightarrow> (\<forall>q\<in>S. \<not> prefix p q)
             | Some t0 \<Rightarrow> key_count t0 = int (card {q \<in> S. prefix p q}) \<and> (is_key t0 \<longleftrightarrow> p \<in> S)"
    for p using assms by (simp add: counts_ok_def)
  have none: "\<not> prefix p q" if "node_at t p = None" "q \<in> S" for p q
    using all[of p] that by simp
  have some: "key_count t0 = int (card {q \<in> S. prefix p q}) \<and> (is_key t0 \<longleftrightarrow> p \<in> S)"
    if "node_at t p = Some t0" for p t0
    using all[of p] that by simp
  have key_at: "is_key_at t q \<longleftrightarrow> q \<in> S" for q
  proof (cases "node_at t q")
    case None
    then show ?thesis using none[of q q] by (auto simp: is_key_at_def)
  next
    case (Some t0)
    then show ?thesis using some[of q t0] by (simp add: is_key_at_def)
  qed
  have step: "case node_at (insert_trie t ps) p of
               None \<Rightarrow> (\<forall>q\<in>insert ps S. \<not> prefix p q)
             | Some t0 \<Rightarrow> key_count t0 = int (card {q \<in> insert ps S. prefix p q})
                          \<and> (is_key t0 \<longleftrightarrow> p \<in> insert ps S)" for p
  proof (cases "prefix p ps")
    case True
    then obtain r where r: "ps = p @ r" by (auto simp: prefix_def)
    define t0' where "t0' = (case node_at t p of None \<Rightarrow> new_tree | Some t0 \<Rightarrow> t0)"
    have at: "node_at (insert_trie t ps) p = Some (insert_trie t0' r)"
      using True by (simp add: node_at_insert t0'_def r)
    have kc0: "key_count t0' = int (card {q \<in> S. prefix p q})"
    proof (cases "node_at t p")
      case None
      have e: "{q \<in> S. prefix p q} = {}" using none[OF None] by auto
      show ?thesis unfolding e using None by (simp add: t0'_def new_tree_def)
    next
      case (Some t0)
      then show ?thesis using some[of p t0] by (simp add: t0'_def)
    qed
    have ik0: "is_key_at t0' r \<longleftrightarrow> ps \<in> S"
    proof (cases "node_at t p")
      case None
      then show ?thesis
        using none[of p ps] True by (auto simp: t0'_def is_key_at_new_tree)
    next
      case (Some t0)
      have "is_key_at t0 r = is_key_at t ps"
        using Some by (simp add: is_key_at_def r node_at_append)
      then show ?thesis using Some key_at[of ps] by (simp add: t0'_def)
    qed
    have set_eq: "{q \<in> insert ps S. prefix p q} = insert ps {q \<in> S. prefix p q}"
      using True by auto
    have fin': "finite {q \<in> S. prefix p q}" using fin by simp
    have c: "card {q \<in> insert ps S. prefix p q}
               = card {q \<in> S. prefix p q} + (if ps \<in> S then 0 else 1)"
      unfolding set_eq using fin' True by (simp add: card_insert_if)
    have kc: "key_count (insert_trie t0' r) = int (card {q \<in> insert ps S. prefix p q})"
      unfolding c key_count_insert using kc0 ik0 by simp
    have ik: "is_key (insert_trie t0' r) \<longleftrightarrow> p \<in> insert ps S"
    proof (cases r)
      case Nil
      then show ?thesis using r by (cases t0') simp
    next
      case (Cons x r')
      have ne: "p \<noteq> ps" using r Cons by simp
      have "is_key t0' \<longleftrightarrow> p \<in> S"
      proof (cases "node_at t p")
        case None
        then show ?thesis using none[of p p] by (auto simp: t0'_def new_tree_def)
      next
        case (Some t0)
        then show ?thesis using some[of p t0] by (simp add: t0'_def)
      qed
      then show ?thesis using ne by (simp add: Cons is_key_insert_Cons)
    qed
    show ?thesis using kc ik by (simp add: at)
  next
    case False
    then have at: "node_at (insert_trie t ps) p = node_at t p"
      by (simp add: node_at_insert)
    have ne: "p \<noteq> ps" using False by auto
    have set_eq: "{q \<in> insert ps S. prefix p q} = {q \<in> S. prefix p q}"
      using False by auto
    show ?thesis
    proof (cases "node_at t p")
      case None
      then show ?thesis using none[of p] False by (auto simp: at)
    next
      case (Some t0)
      then show ?thesis unfolding at set_eq using some[of p t0] ne by simp
    qed
  qed
  show ?thesis
    unfolding counts_ok_def using fin step by simp
qed

lemma counts_ok_fold:
  "counts_ok t S \<Longrightarrow>
   counts_ok (fold (\<lambda>key t. insert_trie t (split key)) ks t) (S \<union> split ` set ks)"
proof (induction ks arbitrary: t S)
  case Nil
  then show ?case by simp
next
  case (Cons k ks)
  have "counts_ok (insert_trie t (split k)) (insert (split k) S)"
    using Cons.prems by (rule counts_ok_insert)
  from Cons.IH[OF this] show ?case by simp
qed

lemma counts_ok_build: "counts_ok (build ks) (split ` set ks)"
  using counts_ok_fold[OF counts_ok_new, of ks] by (simp add: build_def)

lemma node_at_recount:
  "node_at (fst (recount t True)) p = map_option (\<lambda>t0. fst (recount t0 True)) (node_at t p)"
proof (induction p arbitrary: t)
  case Nil
  show ?case by simp
next
  case (Cons a p)
  obtain ch k n where t: "t = PrefixTree ch k n" by (cases t)
  show ?case
  proof (cases ch)
    case None
    then show ?thesis by (simp add: t recount_None)
  next
    case (Some cs)
    then show ?thesis
      by (cases "map_of cs a") (simp_all add: t recount_Some map_of_recounted Cons.IH)
  qed
qed

lemma card_split_prefix:
  "card {q \<in> split ` set ks. prefix p q} = card {k \<in> set ks. prefix p (split k)}"
proof -
  have "{q \<in> split ` set ks. prefix p q} = split ` {k \<in> set ks. prefix p (split k)}"
    by auto
  moreover have "inj_on split {k \<in> set ks. prefix p (split k)}"
    using inj_split by (rule inj_on_subset) simp
  ultimately show ?thesis by (simp add: card_image)
qed

lemma recount_build_node:
  assumes "node_at (fst (recount (build ks) True)) p = Some t'"
  shows "count t' = int (card {k \<in> set ks. prefix p (split k)})"
proof -
  obtain t0 where t0: "node_at (build ks) p = Some t0" and t': "t' = fst (recount t0 True)"
    using assms by (auto simp: node_at_recount)
  have "key_count t0 = int (card {q \<in> split ` set ks. prefix p q})"
    using counts_ok_build[of ks] t0 unfolding counts_ok_def
    by (auto dest!: spec[of _ p])
  then show ?thesis
    by (simp add: t' recount_count recount_value card_split_prefix)
qed

fun leaf_ids :: "node \<Rightarrow> string list" where
  "leaf_ids (Node i l ic ch) =
     (if ic = ''key'' then [i] else []) @
     (case ch of None \<Rightarrow> [] | Some ns \<Rightarrow> concat (map leaf_ids ns))"

definition has_children :: "(string \<times> trie) list \<Rightarrow> string \<Rightarrow> bool" where
  "has_children cs segment =
     (case map_of cs segment of None \<Rightarrow> False | Some child \<Rightarrow> children child \<noteq> None)"

definition key_child :: "(string \<times> trie) list \<Rightarrow> string \<Rightarrow> bool" where
  "key_child cs segment =
     (case map_of cs segment of None \<Rightarrow> False | Some child \<Rightarrow> is_key child)"

lemma folder_entries_icon:
  "filter (\<lambda>e. icon e = ''folder'') (concat (map (folder_entries cs pfx) segs))
     = concat (map (folder_entries cs pfx) segs)"
  by (induction segs) (auto simp: folder_entries_def split: option.splits)

lemma leaf_entries_icon:
  "filter (\<lambda>e. icon e = ''folder'') (concat (map (leaf_entries cs pfx) segs)) = []"
  by (induction segs) (auto simp: leaf_entries_def split: option.splits)

lemma folder_entries_ids:
  "map (\<lambda>e. (icon e, node_id e)) (concat (map (folder_entries cs pfx) segs))
     = map (\<lambda>s. (''folder'', child_id pfx s)) (filter (has_children cs) segs)"
  by (induction segs) (auto simp: folder_entries_def has_children_def split: option.splits)

lemma leaf_entries_ids:
  "map (\<lambda>e. (icon e, node_id e)) (concat (map (leaf_entries cs pfx) segs))
     = map (\<lambda>s. (''key'', child_id pfx s)) (filter (key_child cs) segs)"
  by (induction segs) (auto simp: leaf_entries_def key_child_def split: option.splits)

lemma map_of_append_new: "map_of cs part = None \<Longrightarrow> map_of (cs @ [(part, v)]) part = Some v"
  by (simp add: map_add_def)

lemma update_same: "map_of cs part = Some v \<Longrightarrow> AList.update part v cs = cs"
  by (induction cs) auto

lemma update_lookup: "map_of cs part = Some v \<Longrightarrow> map_of (AList.update part w cs) part = Some w"
  by (simp add: update_conv')

lemma insert_trie_idem: "insert_trie (insert_trie t ps) ps = insert_trie t ps"
proof (induction ps arbitrary: t)
  case Nil
  show ?case by (cases t) simp
next
  case (Cons part parts)
  obtain ch k n where t: "t = PrefixTree ch k n" by (cases t)
  define cs where "cs = (case ch of None \<Rightarrow> [] | Some cs \<Rightarrow> cs)"
  show ?case
  proof (cases "map_of cs part")
    case None
    then show ?thesis
      using Cons.IH[of new_tree] by (simp add: t cs_def[symmetric] map_add_def update_same)
  next
    case (Some child)
    then show ?thesis
      using Cons.IH[of child] by (simp add: t cs_def[symmetric] update_conv' )
  qed
qed

section \<open>Facts about the browser\<close>

lemma fold_visit_recounted:
  assumes "\<And>s c p. (s, c) \<in> set cs \<Longrightarrow>
             fst (to_nodes (fst (recount c True)) p) = fst (recount c True)"
  shows "fst (fold (visit (map (\<lambda>(s, c). (s, fst (recount c True))) cs) pfx) segs
                (map (\<lambda>(s, c). (s, fst (recount c True))) cs, fs, ls))
           = map (\<lambda>(s, c). (s, fst (recount c True))) cs"
proof (induction segs arbitrary: fs ls)
  case Nil
  show ?case by simp
next
  case (Cons s segs)
  let ?cs' = "map (\<lambda>(s, c). (s, fst (recount c True))) cs"
  have "fst (visit ?cs' pfx s (?cs', fs, ls)) = ?cs'"
  proof (cases "map_of cs s")
    case None
    then show ?thesis by (simp add: visit_step map_of_recounted)
  next
    case (Some c0)
    then have "(s, c0) \<in> set cs" by (rule map_of_SomeD)
    then have "fst (to_nodes (fst (recount c0 True)) (child_id pfx s)) = fst (recount c0 True)"
      by (rule assms)
    moreover have "map_of ?cs' s = Some (fst (recount c0 True))"
      using Some by (simp add: map_of_recounted)
    ultimately show ?thesis
      by (simp add: visit_step recount_idem update_same)
  qed
  then obtain fs' ls' where "visit ?cs' pfx s (?cs', fs, ls) = (?cs', fs', ls')"
    by (metis prod.collapse)
  then show ?case using Cons.IH[of fs' ls'] by simp
qed

lemma to_nodes_recounted:
  "fst (to_nodes (fst (recount t True)) pfx) = fst (recount t True)"
proof (induction t arbitrary: pfx rule: trie_cases_induct)
  case (Leaf k n)
  show ?case by (simp add: recount_None)
next
  case (Inner cs k n)
  show ?case
    using fold_visit_recounted[of cs pfx _ "[]" "[]", OF Inner]
    by (simp add: recount_Some to_nodes_Some case_prod_beta)
qed

lemma update_tree_recounted:
  "update_tree (b\<lparr>prefix_tree := fst (recount t True)\<rparr>) =
     b\<lparr>prefix_tree := fst (recount t True), tree_items := snd (to_nodes t '''')\<rparr>"
  by (simp add: update_tree_def case_prod_beta to_nodes_recounted to_nodes_recount)








section \<open>Facts about the two threads\<close>








lemma run_Cons: "run select srv (mv # mvs) s = run select srv mvs (sys_step select srv mv s)"
  by (simp add: run_def)

lemma run_Nil: "run select srv [] s = s"
  by (simp add: run_def)

lemma ui_idle: "ui s = [] \<Longrightarrow> run select srv (replicate n Ui_step) s = s"
  by (induction n) (simp_all add: run_def)

lemma ui_step_Cons:
  "ui s = st # rest \<Longrightarrow> sys_step select srv Ui_step s = ui_exec select srv st rest s"
  by simp

lemma exact_statements_agree:
  assumes "ui s = []" and "tree_lock s = None" and "exact_search (brw s)" and "raw \<noteq> []"
  shows "brw (run select srv (Event (Search raw) # replicate 18 Ui_step) s)
           = try_exact_key srv (mgr s) (brw s) raw"
proof (cases "connected (mgr s)")
  case False
  then show ?thesis
    using assms
    by (simp add: run_Cons dispatch_def eval_nat_numeral try_exact_key_def ui_idle
          del: replicate.simps)
       (simp add: run_def)
next
  case True
  show ?thesis
  proof (cases "fst (get_key_type srv (mgr s) raw)")
    case (Inl e)
    then show ?thesis
      using assms True
      by (simp add: run_def dispatch_def eval_nat_numeral try_exact_key_def except_exact_def
            update_tree_stmts_def show_error_def)
  next
    case (Inr ty)
    show ?thesis
    proof (cases "ty = ''none''")
      case True
      then show ?thesis
        using assms \<open>connected (mgr s)\<close> Inr
        by (simp add: run_def dispatch_def eval_nat_numeral try_exact_key_def
              update_tree_stmts_def)
    next
      case False
      then show ?thesis
        using assms \<open>connected (mgr s)\<close> Inr
        by (cases "fst (get_db_size srv (mgr s))")
           (simp_all add: run_def dispatch_def eval_nat_numeral try_exact_key_def except_exact_def
              update_tree_stmts_def show_error_def Let_def)
    qed
  qed
qed

chapter \<open>The claims\<close>

section \<open>Counts after \<open>recount\<close>\<close>

text \<open>
  C1. For the tree built by inserting the keys \<open>keys\<close> (each split on \<open>:\<close>, in any order
  and with any repetitions), after \<open>recount\<close> the root's \<open>count\<close>, which is also the
  value \<open>recount\<close> returns, is the number of distinct keys; the \<open>count\<close> of the node
  at any component path \<open>p\<close> is the number of distinct keys whose component path has
  \<open>p\<close> as a prefix (the node's own key included); and recounting a node without
  children gives 1 if it is a key and 0 otherwise.
\<close>

theorem recount_counts_keys:
  "count (fst (recount (build keys) True)) = int (card (set keys)) \<and>
   snd (recount (build keys) True) = int (card (set keys)) \<and>
   (\<forall>p t'. node_at (fst (recount (build keys) True)) p = Some t' \<longrightarrow>
            count t' = int (card {k \<in> set keys. prefix p (split k)})) \<and>
   (\<forall>k n b. recount (PrefixTree None k n) b =
              (PrefixTree None k (if k then 1 else 0), if k then 1 else 0))"
proof -
  have root: "count (fst (recount (build keys) True)) = int (card (set keys))"
    using recount_build_node[of keys "[]" "fst (recount (build keys) True)"] by simp
  then have ret: "snd (recount (build keys) True) = int (card (set keys))"
    by (simp add: recount_count)
  show ?thesis
    using root ret by (simp add: recount_build_node recount_None)
qed

theorem recount_counts_keys_witness:
  "node_at (fst (recount (build [''user:1'', ''user:2'', ''order:5'']) True)) [''user'']
     = Some (PrefixTree (Some [(''1'', PrefixTree None True 1), (''2'', PrefixTree None True 1)])
               False 2) \<and>
   int (card {k \<in> set [''user:1'', ''user:2'', ''order:5'']. prefix [''user''] (split k)}) = 2 \<and>
   count (fst (recount (build [''user:1'', ''user:2'', ''order:5'']) True)) = 3"
proof -
  let ?keys = "[''user:1'', ''user:2'', ''order:5'']"
  let ?node = "PrefixTree (Some [(''1'', PrefixTree None True 1), (''2'', PrefixTree None True 1)])
                 False 2"
  have at: "node_at (fst (recount (build ?keys) True)) [''user''] = Some ?node"
    by code_simp
  have "count ?node = int (card {k \<in> set ?keys. prefix [''user''] (split k)})"
    using recount_counts_keys[of ?keys] at by blast
  then have c: "int (card {k \<in> set ?keys. prefix [''user''] (split k)}) = 2"
    by simp
  have "card (set ?keys) = 3" by code_simp
  then have r: "count (fst (recount (build ?keys) True)) = 3"
    using recount_counts_keys[of ?keys] by simp
  show ?thesis using at c r by blast
qed

section \<open>Insertion is idempotent\<close>

text \<open>
  C2. Inserting the same key string \<open>n \<ge> 1\<close> times into any tree gives the tree that one
  insertion gives, hence the same \<open>count\<close> at every node after \<open>recount\<close>; inserting
  a key that was just inserted changes nothing.
\<close>

theorem insert_idempotent:
  "0 < n \<Longrightarrow>
     ((\<lambda>t. insert_trie t (split key)) ^^ n) t = insert_trie t (split key) \<and>
     recount (((\<lambda>t. insert_trie t (split key)) ^^ n) t) True
       = recount (insert_trie t (split key)) True \<and>
     insert_trie (insert_trie t (split key)) (split key) = insert_trie t (split key)"
proof (induction n)
  case 0
  then show ?case by simp
next
  case (Suc n)
  then show ?case by (cases n) (simp_all add: insert_trie_idem)
qed

theorem insert_idempotent_witness:
  "(0::nat) < 3 \<and>
   ((\<lambda>t. insert_trie t (split ''user:1'')) ^^ 3) (build [''order:5''])
     = insert_trie (build [''order:5'']) (split ''user:1'') \<and>
   snd (recount (((\<lambda>t. insert_trie t (split ''user:1'')) ^^ 3) (build [''order:5''])) True) = 2"
proof -
  have h: "(0::nat) < 3" by simp
  have c: "snd (recount (insert_trie (build [''order:5'']) (split ''user:1'')) True) = 2"
    by code_simp
  show ?thesis
    using insert_idempotent [OF h, of "''user:1''" "build [''order:5'']"] c by simp
qed

section \<open>Materialization\<close>

text \<open>
  C3, as the code has it. The folder entries in the output of a node are, for each child
  that has children, in the order of the sorted segments, one entry whose label is the
  segment followed by the number of \<open>is_key\<close> nodes strictly below the child: the
  child's subtree key count, less one when the child is itself a key.
\<close>

theorem folder_label_counts_descendants:
  "filter (\<lambda>e. icon e = ''folder'') (snd (to_nodes (PrefixTree (Some cs) k n) pfx)) =
     concat (map (\<lambda>segment.
                    case map_of cs segment of
                      None \<Rightarrow> []
                    | Some child \<Rightarrow>
                        if children child \<noteq> None
                        then [Node (child_id pfx segment)
                                (segment @ '' ('' @
                                   str_int (key_count child - (if is_key child then 1 else 0)) @
                                   '')'')
                                ''folder''
                                (Some (snd (to_nodes child (child_id pfx segment))))]
                        else [])
                 (sort_key lower (map fst cs)))"
proof -
  have "folder_entries cs pfx =
          (\<lambda>segment.
             case map_of cs segment of
               None \<Rightarrow> []
             | Some child \<Rightarrow>
                 if children child \<noteq> None
                 then [Node (child_id pfx segment)
                         (segment @ '' ('' @
                            str_int (key_count child - (if is_key child then 1 else 0)) @ '')'')
                         ''folder''
                         (Some (snd (to_nodes child (child_id pfx segment))))]
                 else [])"
    by (rule ext) (rule folder_entries_eq)
  then show ?thesis
    using folder_entries_icon[of cs pfx] leaf_entries_icon[of cs pfx]
    by (simp add: to_nodes_out)
qed

theorem folder_label_witness:
  "filter (\<lambda>e. icon e = ''folder'')
          (snd (to_nodes (build [''a'', ''a:b'', ''a:c'']) ''''))
     = [Node ''a'' ''a (2)'' ''folder''
          (Some [Node ''a:b'' ''b'' ''key'' None, Node ''a:c'' ''c'' ''key'' None])]"
proof -
  let ?cs = "[(''a'', PrefixTree (Some [(''b'', PrefixTree None True 0),
                                       (''c'', PrefixTree None True 0)]) True 0)]"
  let ?f = "\<lambda>segment.
              case map_of ?cs segment of
                None \<Rightarrow> []
              | Some child \<Rightarrow>
                  if children child \<noteq> None
                  then [Node (child_id '''' segment)
                          (segment @ '' ('' @
                             str_int (key_count child - (if is_key child then 1 else 0)) @ '')'')
                          ''folder''
                          (Some (snd (to_nodes child (child_id '''' segment))))]
                  else []"
  have b: "build [''a'', ''a:b'', ''a:c''] = PrefixTree (Some ?cs) False 0"
    by code_simp
  have out: "filter (\<lambda>e. icon e = ''folder'') (snd (to_nodes (PrefixTree (Some ?cs) False 0) ''''))
               = concat (map ?f (sort_key lower (map fst ?cs)))"
    by (rule folder_label_counts_descendants)
  have rhs: "concat (map ?f (sort_key lower (map fst ?cs)))
               = [Node ''a'' ''a (2)'' ''folder''
                    (Some [Node ''a:b'' ''b'' ''key'' None, Node ''a:c'' ''c'' ''key'' None])]"
    by code_simp
  show ?thesis unfolding b by (rule trans[OF out rhs])
qed

text \<open>
  The claim as the specification states it (the label shows the subtree's key count,
  the node itself included) fails for a node that is both a key and a folder: for the
  keys \<open>a\<close> and \<open>a:b\<close> the folder of \<open>a\<close> is labelled \<open>a (1)\<close> while the \<open>count\<close> of
  that node is 2.
\<close>

theorem folder_label_counterexample:
  "snd (to_nodes (fst (recount (build [''a'', ''a:b'']) True)) '''') =
     [Node ''a'' ''a (1)'' ''folder'' (Some [Node ''a:b'' ''b'' ''key'' None]),
      Node ''a'' ''a'' ''key'' None] \<and>
   map_option count (node_at (fst (recount (build [''a'', ''a:b'']) True)) [''a'']) = Some 2 \<and>
   map_option key_count (node_at (build [''a'', ''a:b'']) [''a'']) = Some 2"
  by code_simp

text \<open>
  C4, as the code has it. The output of a node lists the folder entries, then the leaf
  entries. Each group follows the segments sorted by their lower-cased form; the sort is
  stable, so segments that are equal ignoring case keep their insertion order. A child
  that is a key and has children is in both groups.
\<close>

theorem sibling_order:
  "sorted (map lower (sort_key lower (map fst cs))) \<and>
   (\<forall>x. filter (\<lambda>s. lower s = x) (sort_key lower (map fst cs))
          = filter (\<lambda>s. lower s = x) (map fst cs)) \<and>
   set (sort_key lower (map fst cs)) = fst ` set cs \<and>
   map (\<lambda>e. (icon e, node_id e)) (snd (to_nodes (PrefixTree (Some cs) k n) pfx)) =
     map (\<lambda>s. (''folder'', child_id pfx s)) (filter (has_children cs) (sort_key lower (map fst cs))) @
     map (\<lambda>s. (''key'', child_id pfx s)) (filter (key_child cs) (sort_key lower (map fst cs))) \<and>
   (\<forall>s c. map_of cs s = Some c \<and> is_key c \<and> children c \<noteq> None \<longrightarrow>
      Node (child_id pfx s) s ''key'' None \<in> set (snd (to_nodes (PrefixTree (Some cs) k n) pfx)) \<and>
      Node (child_id pfx s)
        (s @ '' ('' @ str_int (key_count c - 1) @ '')'') ''folder''
        (Some (snd (to_nodes c (child_id pfx s))))
        \<in> set (snd (to_nodes (PrefixTree (Some cs) k n) pfx)))"
proof -
  have 1: "sorted (map lower (sort_key lower (map fst cs)))"
    by (rule sorted_sort_key)
  have 2: "filter (\<lambda>s. lower s = x) (sort_key lower (map fst cs))
             = filter (\<lambda>s. lower s = x) (map fst cs)" for x
    by (rule sort_key_stable)
  have 3: "set (sort_key lower (map fst cs)) = fst ` set cs"
    by simp
  have 4: "map (\<lambda>e. (icon e, node_id e)) (snd (to_nodes (PrefixTree (Some cs) k n) pfx)) =
     map (\<lambda>s. (''folder'', child_id pfx s)) (filter (has_children cs) (sort_key lower (map fst cs))) @
     map (\<lambda>s. (''key'', child_id pfx s)) (filter (key_child cs) (sort_key lower (map fst cs)))"
    by (simp only: to_nodes_out map_append folder_entries_ids leaf_entries_ids)
  have 5: "Node (child_id pfx s) s ''key'' None \<in> set (snd (to_nodes (PrefixTree (Some cs) k n) pfx)) \<and>
      Node (child_id pfx s)
        (s @ '' ('' @ str_int (key_count c - 1) @ '')'') ''folder''
        (Some (snd (to_nodes c (child_id pfx s))))
        \<in> set (snd (to_nodes (PrefixTree (Some cs) k n) pfx))"
    if "map_of cs s = Some c \<and> is_key c \<and> children c \<noteq> None" for s c
  proof -
    have "(s, c) \<in> set cs" using that by (auto dest: map_of_SomeD)
    then have "s \<in> set (sort_key lower (map fst cs))" by force
    moreover have "leaf_entries cs pfx s = [Node (child_id pfx s) s ''key'' None]"
      using that by (simp add: leaf_entries_def)
    moreover have "folder_entries cs pfx s =
        [Node (child_id pfx s) (s @ '' ('' @ str_int (key_count c - 1) @ '')'') ''folder''
           (Some (snd (to_nodes c (child_id pfx s))))]"
      using that by (simp add: folder_entries_eq)
    ultimately show ?thesis
      by (simp only: to_nodes_out set_append set_concat set_map) force
  qed
  show ?thesis using 1 2 3 4 5 by blast
qed

theorem sibling_order_witness:
  "map (\<lambda>e. (icon e, node_id e))
       (snd (to_nodes (build [''b'', ''B:x'', ''a:y'', ''a'']) ''''))
     = [(''folder'', ''a''), (''folder'', ''B''), (''key'', ''a''), (''key'', ''b'')]"
proof -
  let ?cs = "[(''b'', PrefixTree None True 0),
              (''B'', PrefixTree (Some [(''x'', PrefixTree None True 0)]) False 0),
              (''a'', PrefixTree (Some [(''y'', PrefixTree None True 0)]) True 0)]"
  have b: "build [''b'', ''B:x'', ''a:y'', ''a''] = PrefixTree (Some ?cs) False 0"
    by code_simp
  have out: "map (\<lambda>e. (icon e, node_id e)) (snd (to_nodes (PrefixTree (Some ?cs) False 0) '''')) =
     map (\<lambda>s. (''folder'', child_id '''' s)) (filter (has_children ?cs) (sort_key lower (map fst ?cs))) @
     map (\<lambda>s. (''key'', child_id '''' s)) (filter (key_child ?cs) (sort_key lower (map fst ?cs)))"
    using sibling_order[of ?cs False 0 "''''"] by blast
  have rhs:
    "map (\<lambda>s. (''folder'', child_id '''' s)) (filter (has_children ?cs) (sort_key lower (map fst ?cs))) @
     map (\<lambda>s. (''key'', child_id '''' s)) (filter (key_child ?cs) (sort_key lower (map fst ?cs)))
     = [(''folder'', ''a''), (''folder'', ''B''), (''key'', ''a''), (''key'', ''b'')]"
    by code_simp
  show ?thesis unfolding b by (rule trans[OF out rhs])
qed

text \<open>
  The ordering law as the specification states it (\<open>a\<close> precedes \<open>b\<close> if and only if
  \<open>a\<close> is less than \<open>b\<close> ignoring case) fails for two siblings that differ only in
  case: \<open>A\<close> precedes \<open>a\<close>, and \<open>A\<close> is not less than \<open>a\<close> ignoring case.
\<close>

theorem sibling_order_counterexample:
  "snd (to_nodes (build [''A'', ''a'']) '''') =
     [Node ''A'' ''A'' ''key'' None, Node ''a'' ''a'' ''key'' None] \<and>
   \<not> lower ''A'' < lower ''a''"
  by code_simp

section \<open>Connecting, executing, selecting a database\<close>

text \<open>
  C5. If the probe on the throwaway client fails, \<open>connect\<close> raises \<open>ConnectionError\<close>
  and returns the manager as it was: client, raw client, executor, host, port, db and
  credentials are those of before, and nothing but the throwaway client has been closed.
  When the probe succeeds, the previous client, raw client and executor are retired
  after the probe and the closing of the throwaway client.
\<close>

theorem connect_failed_probe_keeps_state:
  "(ping (test_client h p d pw un) = Some e \<longrightarrow>
      connect ping m h p d pw un =
        (Inl (ConnectionError (''Failed to connect to '' @ h @ '':'' @ str_int p @ '': '' @ e)),
         m,
         [Ping (test_client h p d pw un), Closed (test_client h p d pw un)])) \<and>
   (ping (test_client h p d pw un) = None \<longrightarrow>
      snd (snd (connect ping m h p d pw un)) =
        [Ping (test_client h p d pw un), Closed (test_client h p d pw un)] @ retire m)"
  by (simp add: connect_def Let_def)

theorem connect_failed_probe_witness:
  "connected (fst (snd (connect (\<lambda>c. if cfg_host c = ''localhost'' then None else Some ''timed out'')
                          init_manager ''localhost'' 6379 0 '''' ''''))) \<and>
   connect (\<lambda>c. if cfg_host c = ''localhost'' then None else Some ''timed out'')
     (fst (snd (connect (\<lambda>c. if cfg_host c = ''localhost'' then None else Some ''timed out'')
                  init_manager ''localhost'' 6379 0 '''' '''')))
     ''10.0.0.9'' 6380 1 ''pw'' ''u''
   = (Inl (ConnectionError ''Failed to connect to 10.0.0.9:6380: timed out''),
      fst (snd (connect (\<lambda>c. if cfg_host c = ''localhost'' then None else Some ''timed out'')
                  init_manager ''localhost'' 6379 0 '''' '''')),
      [Ping (test_client ''10.0.0.9'' 6380 1 ''pw'' ''u''),
       Closed (test_client ''10.0.0.9'' 6380 1 ''pw'' ''u'')])"
proof -
  let ?ping = "\<lambda>c. if cfg_host c = ''localhost'' then None else Some ''timed out''"
  let ?m = "fst (snd (connect ?ping init_manager ''localhost'' 6379 0 '''' ''''))"
  have c: "connected ?m"
    by (simp add: connect_def connected_def test_client_def Let_def)
  have f: "?ping (test_client ''10.0.0.9'' 6380 1 ''pw'' ''u'') = Some ''timed out''"
    by (simp add: test_client_def)
  have s: "str_int 6380 = ''6380''"
    by (simp add: str_int_def)
  show ?thesis
    using c f connect_failed_probe_keeps_state
            [of ?ping "''10.0.0.9''" 6380 1 "''pw''" "''u''" "''timed out''" ?m]
    by (simp only: s) simp
qed

text \<open>
  C6. Without an executor \<open>execute\<close> raises \<open>ConnectionError\<close> at once and submits
  nothing; with one, the call is submitted to that pool and awaited with a timeout of 30
  seconds, its value, its exception or the timeout being the result. The key operations
  raise the same error, and submit nothing, when there is no client. A manager that was
  never connected or has been disconnected has no executor; a connected one has a pool
  of four workers.
\<close>

theorem execute_requires_executor:
  "(executor m = None \<longrightarrow>
      execute m call = (Inl (ConnectionError ''Not connected to Redis''), [])) \<and>
   (\<forall>ex. executor m = Some ex \<longrightarrow>
      execute m call =
        (case call of
           Returns v \<Rightarrow> Inr v
         | Raises e \<Rightarrow> Inl (Raised e)
         | NoResultInTime \<Rightarrow> Inl TimeoutError,
         [Submit ex 30])) \<and>
   (client m = None \<longrightarrow>
      scan_keys srv m pat cnt cur = (Inl (ConnectionError ''Not connected to Redis''), []) \<and>
      get_key_type srv m key = (Inl (ConnectionError ''Not connected to Redis''), []) \<and>
      get_db_size srv m = (Inl (ConnectionError ''Not connected to Redis''), [])) \<and>
   executor init_manager = None \<and>
   executor (fst (disconnect m)) = None \<and>
   (ping (test_client h p d pw un) = None \<longrightarrow>
      executor (fst (snd (connect ping m h p d pw un)))
        = Some \<lparr>max_workers = 4, thread_name_prefix = ''redis_worker''\<rparr>)"
  by (simp add: execute_def scan_keys_def get_key_type_def get_db_size_def client_prop_def
        init_manager_def disconnect_def connect_def Let_def)

theorem execute_requires_executor_witness:
  "execute init_manager (Returns (5::int)) = (Inl (ConnectionError ''Not connected to Redis''), []) \<and>
   execute (fst (snd (connect (\<lambda>c. None) init_manager ''localhost'' 6379 0 '''' '''')))
           (Returns (5::int))
     = (Inr 5, [Submit \<lparr>max_workers = 4, thread_name_prefix = ''redis_worker''\<rparr> 30]) \<and>
   execute (fst (snd (connect (\<lambda>c. None) init_manager ''localhost'' 6379 0 '''' '''')))
           (NoResultInTime :: int outcome)
     = (Inl TimeoutError, [Submit \<lparr>max_workers = 4, thread_name_prefix = ''redis_worker''\<rparr> 30])"
proof -
  let ?m = "fst (snd (connect (\<lambda>c. None) init_manager ''localhost'' 6379 0 '''' ''''))"
  let ?ex = "\<lparr>max_workers = 4, thread_name_prefix = ''redis_worker''\<rparr>"
  have 0: "executor init_manager = None" by (simp add: init_manager_def)
  have 1: "executor ?m = Some ?ex" by (simp add: connect_def Let_def)
  have a: "execute init_manager (Returns (5::int))
             = (Inl (ConnectionError ''Not connected to Redis''), [])"
    using execute_requires_executor[of init_manager "Returns (5::int)"] 0 by blast
  have b: "execute ?m (Returns (5::int)) = (Inr 5, [Submit ?ex 30])"
    using execute_requires_executor[of ?m "Returns (5::int)"] 1 by simp
  have c: "execute ?m (NoResultInTime :: int outcome) = (Inl TimeoutError, [Submit ?ex 30])"
    using execute_requires_executor[of ?m "NoResultInTime :: int outcome"] 1 by simp
  show ?thesis using a b c by blast
qed

text \<open>
  C7, as the code has it. \<open>select_db\<close> guards both \<open>select\<close> calls with a test for
  the client: with no client it issues no command, raises nothing and records the index.
  With both clients it issues \<open>select\<close> on each, leaves them in place, and records the
  index. It fails only when a \<open>select\<close> raises, and then the index is not recorded.
\<close>

theorem select_db_guards:
  "(client m = None \<and> raw_client m = None \<longrightarrow>
      select_db select m d = (Inr (), m\<lparr>db := d\<rparr>, [])) \<and>
   (\<forall>c r. client m = Some c \<and> raw_client m = Some r \<and> select c d = None \<and> select r d = None \<longrightarrow>
      select_db select m d = (Inr (), m\<lparr>db := d\<rparr>, [Select c d, Select r d])) \<and>
   (\<forall>c e. client m = Some c \<and> select c d = Some e \<longrightarrow>
      select_db select m d = (Inl (Raised e), m, [])) \<and>
   (\<forall>c r e. client m = Some c \<and> raw_client m = Some r \<and> select c d = None \<and> select r d = Some e \<longrightarrow>
      select_db select m d = (Inl (Raised e), m, [Select c d]))"
  by (simp add: select_db_def)

theorem select_db_guards_witness:
  "select_db (\<lambda>c d. None)
     (fst (snd (connect (\<lambda>c. None) init_manager ''localhost'' 6379 0 '''' ''''))) 3
   = (Inr (),
      (fst (snd (connect (\<lambda>c. None) init_manager ''localhost'' 6379 0 '''' '''')))\<lparr>db := 3\<rparr>,
      [Select ((test_client ''localhost'' 6379 0 '''' '''')\<lparr>health_check_interval := 30\<rparr>) 3,
       Select ((test_client ''localhost'' 6379 0 '''' '''')
                 \<lparr>decode_responses := False, health_check_interval := 30\<rparr>) 3])"
proof -
  let ?m = "fst (snd (connect (\<lambda>c. None) init_manager ''localhost'' 6379 0 '''' ''''))"
  let ?c = "(test_client ''localhost'' 6379 0 '''' '''')\<lparr>health_check_interval := 30\<rparr>"
  let ?r = "(test_client ''localhost'' 6379 0 '''' '''')
              \<lparr>decode_responses := False, health_check_interval := 30\<rparr>"
  have 1: "client ?m = Some ?c" by (simp add: connect_def Let_def)
  have 2: "raw_client ?m = Some ?r" by (simp add: connect_def Let_def test_client_def)
  show ?thesis
    using select_db_guards[of ?m "\<lambda>c d. None" 3] 1 2 by simp
qed

text \<open>
  The claim as the specification states it (selecting a database fails when not
  connected) does not hold: on a manager that was never connected the call returns
  normally and records the index.
\<close>

theorem select_db_counterexample:
  "\<not> connected init_manager \<and>
   select_db (\<lambda>c d. None) init_manager 3 = (Inr (), init_manager\<lparr>db := 3\<rparr>, [])"
  by (simp add: select_db_def connected_def init_manager_def)

section \<open>Exact lookup\<close>



section \<open>The drain thread and a new session\<close>




section \<open>Leaf ids\<close>

text \<open>
  C10. The id of a leaf is meant to be the key string: \<open>_on_item_clicked\<close> selects a
  leaf only if its id is in the key set. For a key whose first component is empty the id
  loses the leading separators, because the test \<open>if prefix\<close> that recognises the top
  level also holds below an empty id: the key \<open>:a\<close> gets the leaf id \<open>a\<close>, and
  a click on that leaf selects nothing.
\<close>

theorem leaf_id_drops_leading_separator:
  "concat (map leaf_ids (snd (to_nodes (build ['':a'']) ''''))) = [''a''] \<and>
   snd (to_nodes (build ['':a'']) '''') =
     [Node '''' '' (1)'' ''folder'' (Some [Node ''a'' ''a'' ''key'' None])] \<and>
   on_item_clicked (set ['':a'']) (Node ''a'' ''a'' ''key'' None) = None"
  by code_simp

end
